theory Spec2Isabelle
  imports Main "HOL-Library.Sublist"
begin

section \<open>Python strings\<close>

text \<open>
  A Python \<open>str\<close> is modelled as a \<open>string\<close>; each \<open>char\<close> stands for the code
  point of the same number, so the model covers the texts whose code points are below 256.
  The string methods that \<open>visualize_dependency.py\<close> calls are written out below.
\<close>

text \<open>\<open>ch.isspace()\<close> on the code points below 256: the characters \<open>str.strip()\<close> removes.\<close>

definition isspace :: "char \<Rightarrow> bool" where
  "isspace c = (of_char c \<in> {9, 10, 11, 12, 13, 28, 29, 30, 31, 32, 133, 160 :: nat})"

text \<open>The line boundaries of \<open>str.splitlines()\<close> on the code points below 256.\<close>

definition is_linebreak :: "char \<Rightarrow> bool" where
  "is_linebreak c = (of_char c \<in> {10, 11, 12, 13, 28, 29, 30, 133 :: nat})"

definition lstrip :: "string \<Rightarrow> string" where
  "lstrip s = dropWhile isspace s"

definition rstrip :: "string \<Rightarrow> string" where
  "rstrip s = rev (dropWhile isspace (rev s))"

text \<open>\<open>s.strip()\<close>\<close>

definition strip :: "string \<Rightarrow> string" where
  "strip s = rstrip (lstrip s)"

text \<open>
  \<open>s.splitlines()\<close>: the text is cut at every line boundary, \<open>\r\n\<close> counting as one,
  and a boundary at the very end opens no further line. The first argument is the line
  read so far.
\<close>

fun splitlines_from :: "string \<Rightarrow> string \<Rightarrow> string list" where
  "splitlines_from cur [] = (if cur = [] then [] else [cur])"
| "splitlines_from cur [c] = (if is_linebreak c then [cur] else [cur @ [c]])"
| "splitlines_from cur (c # d # cs) =
     (if c = CHR 0x0D \<and> d = CHR 0x0A then cur # splitlines_from [] cs
      else if is_linebreak c then cur # splitlines_from [] (d # cs)
      else splitlines_from (cur @ [c]) (d # cs))"

definition splitlines :: "string \<Rightarrow> string list" where
  "splitlines s = splitlines_from [] s"

text \<open>
  \<open>s.split(sep)\<close> for a separator that is not empty (the source splits at \<open>":"\<close> and at
  \<open>", "\<close> only): the occurrences of \<open>sep\<close> are found from left to right, without overlap,
  and the pieces between them are returned, empty ones included. The second argument is
  the piece read so far.
\<close>

function split_from :: "string \<Rightarrow> string \<Rightarrow> string \<Rightarrow> string list" where
  "split_from sep cur [] = [cur]"
| "split_from sep cur (c # cs) =
     (if sep \<noteq> [] \<and> prefix sep (c # cs)
      then cur # split_from sep [] (drop (length sep) (c # cs))
      else split_from sep (cur @ [c]) cs)"
  by pat_completeness auto
termination
  by (relation "measure (\<lambda>(sep, cur, s). length s)") auto

definition split :: "string \<Rightarrow> string \<Rightarrow> string list" where
  "split sep s = split_from sep [] s"

section \<open>The dependency lookup\<close>

text \<open>
  The exceptions that can leave \<open>get_dependencies\<close>. \<open>CalledProcessError\<close> is what
  \<open>subprocess.run(..., check=True)\<close> raises on a non-zero exit status;
  \<open>FileNotFoundError\<close> is what it raises when the program \<open>pip\<close> cannot be started;
  \<open>IndexError\<close> is raised by \<open>line.split(":")[1]\<close> on a line without a colon.
  \<open>RecursionError\<close> is what the interpreter raises when the calls nest deeper than its
  recursion limit allows.
\<close>

datatype py_error = CalledProcessError | FileNotFoundError | IndexError | RecursionError

text \<open>
  What running \<open>pip show <package>\<close> does: the process runs to its end with an exit
  status and a standard output (decoded as text), or it cannot be started at all.
\<close>

datatype process = Completed int string | Not_started

text \<open>\<open>subprocess.run(["pip", "show", package_name], capture_output=True, text=True, check=True)\<close>,
  reduced to \<open>result.stdout\<close>.\<close>

definition subprocess_run :: "process \<Rightarrow> py_error + string" where
  "subprocess_run r =
     (case r of
        Not_started \<Rightarrow> Inl FileNotFoundError
      | Completed returncode stdout \<Rightarrow>
          if returncode \<noteq> 0 then Inl CalledProcessError else Inr stdout)"

text \<open>\<open>xs[1]\<close>\<close>

definition item1 :: "'a list \<Rightarrow> py_error + 'a" where
  "item1 xs = (case xs of x # y # _ \<Rightarrow> Inr y | _ \<Rightarrow> Inl IndexError)"

text \<open>The list comprehension \<open>[dep.strip() for dep in requires_line.split(", ") if dep]\<close>.\<close>

definition split_requires :: "string \<Rightarrow> string list" where
  "split_requires requires_line = map strip (filter (\<lambda>dep. dep \<noteq> []) (split '', '' requires_line))"

text \<open>
  The loop over the lines of the output, lines 47 to 54: the first line that starts with
  \<open>Requires\<close> decides the result, and the loop is left there.
\<close>

fun scan_lines :: "string list \<Rightarrow> py_error + string list" where
  "scan_lines [] = Inr []"
| "scan_lines (line # lines) =
     (if prefix ''Requires'' line then
        (case item1 (split '':'' line) of
           Inl e \<Rightarrow> Inl e
         | Inr field \<Rightarrow>
             (let requires_line = strip field
              in if requires_line \<noteq> [] then Inr (split_requires requires_line) else Inr []))
      else scan_lines lines)"

text \<open>
  \<open>get_dependencies\<close>, with the package manager as the first argument: \<open>pip p\<close> is what
  \<open>pip show p\<close> does. The result is the list of the lines printed, and the value returned
  or the exception raised.
\<close>

definition get_dependencies :: "(string \<Rightarrow> process) \<Rightarrow> string \<Rightarrow> string list \<times> (py_error + string list)" where
  "get_dependencies pip package_name =
     (case subprocess_run (pip package_name) of
        Inl CalledProcessError \<Rightarrow>
          ([''Error: Could not fetch dependencies for '' @ package_name], Inr [])
      | Inl e \<Rightarrow> ([], Inl e)
      | Inr stdout \<Rightarrow> ([], scan_lines (splitlines stdout)))"

section \<open>The graph builder\<close>

text \<open>
  What a traversal does, in the order in which it does it: a call of \<open>add_dependencies\<close>
  with its package and depth, a call of \<open>get_dependencies\<close> (one run of \<open>pip show\<close>),
  and an edge appended to \<open>graph\<close>, kept as the pair it is formatted from.
\<close>

datatype event = Enter string int | Lookup string | Append string string

text \<open>
  The variables that the closure \<open>add_dependencies\<close> shares with
  \<open>build_dependency_graph\<close>, \<open>graph\<close> and \<open>visited\<close>, and the two things the run leaves
  outside: the lines printed and the record of events.
\<close>

record state =
  graph :: "string list"
  visited :: "string set"
  printed :: "string list"
  trace :: "event list"

text \<open>
  \<open>add_dependencies\<close>, lines 71 to 79, and its \<open>for\<close> loop over the dependencies, which
  goes on from the state in which the recursive call has left \<open>graph\<close> and \<open>visited\<close>. An
  exception of \<open>get_dependencies\<close> is not caught here and ends the traversal.
\<close>

function add_dependencies :: "(string \<Rightarrow> process) \<Rightarrow> int \<Rightarrow> string \<Rightarrow> int \<Rightarrow> state \<Rightarrow> py_error + state"
  and for_dep :: "(string \<Rightarrow> process) \<Rightarrow> int \<Rightarrow> string \<Rightarrow> int \<Rightarrow> string list \<Rightarrow> state \<Rightarrow> py_error + state"
where
  "add_dependencies pip max_depth pkg_name current_depth s =
     (if current_depth > max_depth \<or> pkg_name \<in> visited s
      then Inr (s\<lparr>trace := trace s @ [Enter pkg_name current_depth]\<rparr>)
      else
        (case get_dependencies pip pkg_name of
           (out, Inl e) \<Rightarrow> Inl e
         | (out, Inr dependencies) \<Rightarrow>
             for_dep pip max_depth pkg_name current_depth dependencies
               (s\<lparr>visited := insert pkg_name (visited s),
                  printed := printed s @ out,
                  trace := trace s @ [Enter pkg_name current_depth, Lookup pkg_name]\<rparr>)))"
| "for_dep pip max_depth pkg_name current_depth [] s = Inr s"
| "for_dep pip max_depth pkg_name current_depth (dep # deps) s =
     (case add_dependencies pip max_depth dep (current_depth + 1)
             (s\<lparr>graph := graph s @ [pkg_name @ '' --> '' @ dep],
                trace := trace s @ [Append pkg_name dep]\<rparr>) of
        Inl e \<Rightarrow> Inl e
      | Inr s' \<Rightarrow> for_dep pip max_depth pkg_name current_depth deps s')"
  by pat_completeness auto
termination
  by (relation "inv_image (less_than <*lex*> less_than)
        (\<lambda>x. case x of
           Inl (pip, max_depth, pkg_name, current_depth, s) \<Rightarrow>
             (2 * nat (max_depth - current_depth + 1), 0)
         | Inr (pip, max_depth, pkg_name, current_depth, deps, s) \<Rightarrow>
             (2 * nat (max_depth - current_depth) + 1, length deps))") auto

text \<open>The state in which \<open>build_dependency_graph\<close> starts: \<open>graph = []\<close>, \<open>visited = set()\<close>.\<close>

definition initial :: state where
  "initial = \<lparr>graph = [], visited = {}, printed = [], trace = []\<rparr>"

text \<open>The traversal of \<open>build_dependency_graph\<close>, with everything it leaves behind.\<close>

definition traverse :: "(string \<Rightarrow> process) \<Rightarrow> string \<Rightarrow> int \<Rightarrow> py_error + state" where
  "traverse pip package_name max_depth = add_dependencies pip max_depth package_name 1 initial"

text \<open>\<open>build_dependency_graph\<close>: the value returned is \<open>graph\<close>.\<close>

definition build_dependency_graph :: "(string \<Rightarrow> process) \<Rightarrow> string \<Rightarrow> int \<Rightarrow> py_error + string list" where
  "build_dependency_graph pip package_name max_depth =
     (case traverse pip package_name max_depth of Inl e \<Rightarrow> Inl e | Inr s \<Rightarrow> Inr (graph s))"

section \<open>The recursion limit of the interpreter\<close>

text \<open>
  \<open>add_dependencies\<close> calls itself once for each level of depth, and the interpreter
  allows only so many nested calls (\<open>sys.getrecursionlimit()\<close>, 1000 unless it is
  changed). The source does not name the limit, so it is a parameter here: \<open>room\<close> is the
  greatest \<open>current_depth\<close> at which the stack still holds the call of \<open>get_dependencies\<close>
  and the calls made inside it. A package expanded at a greater depth raises
  \<open>RecursionError\<close>; a call that returns at once needs one frame only and fits whenever
  the expansion that made it did. The rest is \<open>add_dependencies\<close> and its loop as above.
\<close>

function add_dependencies_bounded :: "int \<Rightarrow> (string \<Rightarrow> process) \<Rightarrow> int \<Rightarrow> string \<Rightarrow> int \<Rightarrow> state \<Rightarrow> py_error + state"
  and for_dep_bounded :: "int \<Rightarrow> (string \<Rightarrow> process) \<Rightarrow> int \<Rightarrow> string \<Rightarrow> int \<Rightarrow> string list \<Rightarrow> state \<Rightarrow> py_error + state"
where
  "add_dependencies_bounded room pip max_depth pkg_name current_depth s =
     (if current_depth > max_depth \<or> pkg_name \<in> visited s
      then Inr (s\<lparr>trace := trace s @ [Enter pkg_name current_depth]\<rparr>)
      else if current_depth > room then Inl RecursionError
      else
        (case get_dependencies pip pkg_name of
           (out, Inl e) \<Rightarrow> Inl e
         | (out, Inr dependencies) \<Rightarrow>
             for_dep_bounded room pip max_depth pkg_name current_depth dependencies
               (s\<lparr>visited := insert pkg_name (visited s),
                  printed := printed s @ out,
                  trace := trace s @ [Enter pkg_name current_depth, Lookup pkg_name]\<rparr>)))"
| "for_dep_bounded room pip max_depth pkg_name current_depth [] s = Inr s"
| "for_dep_bounded room pip max_depth pkg_name current_depth (dep # deps) s =
     (case add_dependencies_bounded room pip max_depth dep (current_depth + 1)
             (s\<lparr>graph := graph s @ [pkg_name @ '' --> '' @ dep],
                trace := trace s @ [Append pkg_name dep]\<rparr>) of
        Inl e \<Rightarrow> Inl e
      | Inr s' \<Rightarrow> for_dep_bounded room pip max_depth pkg_name current_depth deps s')"
  by pat_completeness auto
termination
  by (relation "inv_image (less_than <*lex*> less_than)
        (\<lambda>x. case x of
           Inl (room, pip, max_depth, pkg_name, current_depth, s) \<Rightarrow>
             (2 * nat (max_depth - current_depth + 1), 0)
         | Inr (room, pip, max_depth, pkg_name, current_depth, deps, s) \<Rightarrow>
             (2 * nat (max_depth - current_depth) + 1, length deps))") auto

definition traverse_bounded :: "int \<Rightarrow> (string \<Rightarrow> process) \<Rightarrow> string \<Rightarrow> int \<Rightarrow> py_error + state" where
  "traverse_bounded room pip package_name max_depth =
     add_dependencies_bounded room pip max_depth package_name 1 initial"

definition build_dependency_graph_bounded :: "int \<Rightarrow> (string \<Rightarrow> process) \<Rightarrow> string \<Rightarrow> int \<Rightarrow> py_error + string list" where
  "build_dependency_graph_bounded room pip package_name max_depth =
     (case traverse_bounded room pip package_name max_depth of
        Inl e \<Rightarrow> Inl e | Inr s \<Rightarrow> Inr (graph s))"

text \<open>
  A package manager with an endless chain of dependencies: each package requires the one
  whose name is longer by one letter \<open>a\<close>.
\<close>

definition chain :: "string \<Rightarrow> process" where
  "chain p = Completed 0 (''Requires: '' @ p @ ''a'')"

section \<open>The renderer\<close>

text \<open>\<open>generate_plantuml_script\<close>: the loop appends each relation and a newline to the script.\<close>

definition generate_plantuml_script :: "string list \<Rightarrow> string" where
  "generate_plantuml_script graph_list =
     foldl (\<lambda>plantuml_script relation. plantuml_script @ relation @ ''\<newline>'')
       ''@startuml\<newline>'' graph_list @ ''@enduml''"


section \<open>Reading a record of events\<close>

text \<open>The packages looked up, in the order of the calls of \<open>get_dependencies\<close>.\<close>

fun lookups :: "event list \<Rightarrow> string list" where
  "lookups [] = []"
| "lookups (Lookup p # t) = p # lookups t"
| "lookups (e # t) = lookups t"

text \<open>The edges appended, as the strings that \<open>graph\<close> holds and as pairs.\<close>

fun edges :: "event list \<Rightarrow> string list" where
  "edges [] = []"
| "edges (Append p d # t) = (p @ '' --> '' @ d) # edges t"
| "edges (e # t) = edges t"

fun pairs :: "event list \<Rightarrow> (string \<times> string) list" where
  "pairs [] = []"
| "pairs (Append p d # t) = (p, d) # pairs t"
| "pairs (e # t) = pairs t"

text \<open>The targets of the edges appended with source \<open>q\<close>, in their order.\<close>

fun targets :: "string \<Rightarrow> event list \<Rightarrow> string list" where
  "targets q [] = []"
| "targets q (Append p d # t) = (if p = q then d # targets q t else targets q t)"
| "targets q (e # t) = targets q t"



definition starts_lookup :: "event list \<Rightarrow> bool" where
  "starts_lookup t = (case t of Lookup r # _ \<Rightarrow> True | _ \<Rightarrow> False)"


section \<open>The events of a traversal whose lookups all return\<close>

text \<open>
  When every lookup returns, \<open>l p\<close> being the list returned for \<open>p\<close>, the events that
  \<open>add_dependencies\<close> and its loop add to the record depend on the visited set alone.
  They are computed here without the rest of the state; \<open>traversal_is_walk\<close> below proves
  that the traversal adds exactly these events.
\<close>

function walk :: "(string \<Rightarrow> string list) \<Rightarrow> int \<Rightarrow> string \<Rightarrow> int \<Rightarrow> string set \<Rightarrow> event list"
  and walk_deps :: "(string \<Rightarrow> string list) \<Rightarrow> int \<Rightarrow> string \<Rightarrow> int \<Rightarrow> string list \<Rightarrow> string set \<Rightarrow> event list"
where
  "walk l md p d V =
     (if d > md \<or> p \<in> V then [Enter p d]
      else Enter p d # Lookup p # walk_deps l md p d (l p) (insert p V))"
| "walk_deps l md p d [] V = []"
| "walk_deps l md p d (dep # deps) V =
     Append p dep # walk l md dep (d + 1) V @
       walk_deps l md p d deps (V \<union> set (lookups (walk l md dep (d + 1) V)))"
  by pat_completeness auto
termination
  by (relation "inv_image (less_than <*lex*> less_than)
        (\<lambda>x. case x of
           Inl (l, md, p, d, V) \<Rightarrow> (2 * nat (md - d + 1), 0)
         | Inr (l, md, p, d, deps, V) \<Rightarrow> (2 * nat (md - d) + 1, length deps))") auto

text \<open>The state after the events \<open>t\<close> have happened in the state \<open>s\<close>.\<close>

definition after :: "(string \<Rightarrow> process) \<Rightarrow> state \<Rightarrow> event list \<Rightarrow> state" where
  "after pip s t =
     s\<lparr>graph := graph s @ edges t,
       visited := visited s \<union> set (lookups t),
       printed := printed s @ concat (map (\<lambda>p. fst (get_dependencies pip p)) (lookups t)),
       trace := trace s @ t\<rparr>"

section \<open>Writing a dependency list\<close>


text \<open>A list with \<open>f\<close> applied to its first element, and to its last.\<close>

fun map_hd :: "('a \<Rightarrow> 'a) \<Rightarrow> 'a list \<Rightarrow> 'a list" where
  "map_hd f [] = []"
| "map_hd f (x # xs) = f x # xs"

fun map_last :: "('a \<Rightarrow> 'a) \<Rightarrow> 'a list \<Rightarrow> 'a list" where
  "map_last f [] = []"
| "map_last f [x] = [f x]"
| "map_last f (x # y # ys) = x # map_last f (y # ys)"

text \<open>A text with a character that \<open>strip\<close> leaves.\<close>

definition nonspace :: "string \<Rightarrow> bool" where
  "nonspace s = (\<exists>c\<in>set s. \<not> isspace c)"

section \<open>A package manager for the examples\<close>

text \<open>
  \<open>pip show p\<close> prints the text listed for \<open>p\<close> and exits with status 0; for a package that
  is not listed it exits with status 1, as \<open>pip show\<close> does for a package it does not find.
\<close>

definition pip_of :: "(string \<times> string) list \<Rightarrow> string \<Rightarrow> process" where
  "pip_of outputs p =
     (case map_of outputs p of Some out \<Rightarrow> Completed 0 out | None \<Rightarrow> Completed 1 [])"

text \<open>The dependency lists of a table; a package that is not listed has none.\<close>

definition deps_of :: "(string \<times> string list) list \<Rightarrow> string \<Rightarrow> string list" where
  "deps_of table p = (case map_of table p of Some deps \<Rightarrow> deps | None \<Rightarrow> [])"

section \<open>Unfolding the traversal\<close>

declare add_dependencies.simps [simp del]

lemma add_dependencies_skip:
  "current_depth > max_depth \<or> pkg_name \<in> visited s \<Longrightarrow>
   add_dependencies pip max_depth pkg_name current_depth s =
     Inr (s\<lparr>trace := trace s @ [Enter pkg_name current_depth]\<rparr>)"
  by (simp add: add_dependencies.simps)

lemma add_dependencies_expand:
  "current_depth \<le> max_depth \<Longrightarrow> pkg_name \<notin> visited s \<Longrightarrow>
   snd (get_dependencies pip pkg_name) = Inr dependencies \<Longrightarrow>
   add_dependencies pip max_depth pkg_name current_depth s =
     for_dep pip max_depth pkg_name current_depth dependencies
       (s\<lparr>visited := insert pkg_name (visited s),
          printed := printed s @ fst (get_dependencies pip pkg_name),
          trace := trace s @ [Enter pkg_name current_depth, Lookup pkg_name]\<rparr>)"
  by (cases "get_dependencies pip pkg_name") (simp add: add_dependencies.simps)

lemma add_dependencies_raise:
  "current_depth \<le> max_depth \<Longrightarrow> pkg_name \<notin> visited s \<Longrightarrow>
   snd (get_dependencies pip pkg_name) = Inl e \<Longrightarrow>
   add_dependencies pip max_depth pkg_name current_depth s = Inl e"
  by (cases "get_dependencies pip pkg_name") (simp add: add_dependencies.simps)

text \<open>A loop whose dependencies all lie beyond the depth bound records an edge and an
  entry for each of them and looks nothing up.\<close>

lemma for_dep_beyond:
  "max_depth < current_depth + 1 \<Longrightarrow>
   for_dep pip max_depth pkg_name current_depth deps s =
     Inr (s\<lparr>graph := graph s @ map (\<lambda>dep. pkg_name @ '' --> '' @ dep) deps,
            trace := trace s @
              concat (map (\<lambda>dep. [Append pkg_name dep, Enter dep (current_depth + 1)]) deps)\<rparr>)"
  by (induction deps arbitrary: s) (simp_all add: add_dependencies_skip)

lemma lookups_leaf: "lookups (concat (map (\<lambda>dep. [Append p dep, Enter dep d]) deps)) = []"
  by (induction deps) simp_all

section \<open>The cycle of two packages\<close>

text \<open>
  Claim C1. When \<open>A\<close> depends on \<open>B\<close> and \<open>B\<close> on \<open>A\<close>, \<open>build_dependency_graph\<close> from \<open>A\<close>
  with depth 5 returns, and the graph holds the edge from \<open>A\<close> to \<open>B\<close> and the edge from
  \<open>B\<close> to \<open>A\<close> and nothing else: each of the two packages is looked up once, and the third
  call, for \<open>A\<close> again, finds it visited.
\<close>

theorem cycle_two_edges:
  assumes "A \<noteq> B"
    and "snd (get_dependencies pip A) = Inr [B]"
    and "snd (get_dependencies pip B) = Inr [A]"
  shows "build_dependency_graph pip A 5 = Inr [A @ '' --> '' @ B, B @ '' --> '' @ A] \<and>
    (\<exists>s. traverse pip A 5 = Inr s \<and>
       trace s = [Enter A 1, Lookup A, Append A B, Enter B 2, Lookup B, Append B A, Enter A 3])"
  using assms
  by (simp add: build_dependency_graph_def traverse_def initial_def
      add_dependencies_expand add_dependencies_skip)

theorem cycle_two_edges_witness:
  "''A'' \<noteq> ''B'' \<and>
   snd (get_dependencies (pip_of [(''A'', ''Name: A\<newline>Requires: B\<newline>''),
                                  (''B'', ''Name: B\<newline>Requires: A\<newline>'')]) ''A'') = Inr [''B''] \<and>
   snd (get_dependencies (pip_of [(''A'', ''Name: A\<newline>Requires: B\<newline>''),
                                  (''B'', ''Name: B\<newline>Requires: A\<newline>'')]) ''B'') = Inr [''A''] \<and>
   build_dependency_graph (pip_of [(''A'', ''Name: A\<newline>Requires: B\<newline>''),
                                   (''B'', ''Name: B\<newline>Requires: A\<newline>'')]) ''A'' 5 =
     Inr [''A --> B'', ''B --> A'']"
proof -
  let ?pip = "pip_of [(''A'', ''Name: A\<newline>Requires: B\<newline>''),
                      (''B'', ''Name: B\<newline>Requires: A\<newline>'')]"
  have 1: "''A'' \<noteq> ''B''" by simp
  have 2: "snd (get_dependencies ?pip ''A'') = Inr [''B'']" by code_simp
  have 3: "snd (get_dependencies ?pip ''B'') = Inr [''A'']" by code_simp
  show ?thesis using cycle_two_edges [OF 1 2 3] 1 2 3 by simp
qed

section \<open>The example with depth 2\<close>

text \<open>
  Claim C2. With \<open>X\<close> depending on \<open>Y\<close> and \<open>Z\<close>, \<open>Y\<close> on \<open>W\<close>, and \<open>Z\<close> on nothing,
  \<open>build_dependency_graph\<close> from \<open>X\<close> with depth 2 returns the three edges from \<open>X\<close> to \<open>Y\<close>,
  from \<open>X\<close> to \<open>Z\<close> and from \<open>Y\<close> to \<open>W\<close>, and no other. They stand in the order in which the
  depth-first traversal finds them: the edge from \<open>Y\<close> to \<open>W\<close> is found while \<open>Y\<close> is
  expanded, before the second dependency of \<open>X\<close> is reached. The packages looked up are
  \<open>X\<close>, \<open>Y\<close> and \<open>Z\<close>: \<open>W\<close> is not expanded.
\<close>

theorem depth_two_example:
  assumes "distinct [X, Y, Z, W]"
    and "snd (get_dependencies pip X) = Inr [Y, Z]"
    and "snd (get_dependencies pip Y) = Inr [W]"
    and "snd (get_dependencies pip Z) = Inr []"
  shows "build_dependency_graph pip X 2 =
      Inr [X @ '' --> '' @ Y, Y @ '' --> '' @ W, X @ '' --> '' @ Z] \<and>
    (\<exists>s. traverse pip X 2 = Inr s \<and> lookups (trace s) = [X, Y, Z])"
proof -
  from assms(1) have ne: "Y \<noteq> X" "Z \<noteq> X" "Z \<noteq> Y" "W \<noteq> X" by auto
  show ?thesis
    using assms ne
    by (simp add: build_dependency_graph_def traverse_def initial_def
        add_dependencies_expand add_dependencies_skip)
qed

theorem depth_two_example_witness:
  "distinct [''X'', ''Y'', ''Z'', ''W''] \<and>
   build_dependency_graph
     (pip_of [(''X'', ''Requires: Y, Z''), (''Y'', ''Requires: W''), (''Z'', ''Requires: ''),
              (''W'', ''Requires: V'')]) ''X'' 2 =
     Inr [''X --> Y'', ''Y --> W'', ''X --> Z'']"
proof -
  let ?pip = "pip_of [(''X'', ''Requires: Y, Z''), (''Y'', ''Requires: W''),
                      (''Z'', ''Requires: ''), (''W'', ''Requires: V'')]"
  have 1: "distinct [''X'', ''Y'', ''Z'', ''W'']" by simp
  have 2: "snd (get_dependencies ?pip ''X'') = Inr [''Y'', ''Z'']" by code_simp
  have 3: "snd (get_dependencies ?pip ''Y'') = Inr [''W'']" by code_simp
  have 4: "snd (get_dependencies ?pip ''Z'') = Inr []" by code_simp
  show ?thesis using depth_two_example [OF 1 2 3 4] by simp
qed

section \<open>A lookup that fails\<close>

text \<open>
  Claim C4. The lookup is meant to fail soft: a diagnostic line and the empty list. The
  code does so when \<open>pip show\<close> runs and exits with a status other than 0, as it does for
  a package it does not find: it prints \<open>Error: Could not fetch dependencies for
  <package>\<close> and returns the empty list. When \<open>pip\<close> cannot be started,
  \<open>subprocess.run\<close> raises \<open>FileNotFoundError\<close>, which the \<open>except\<close> clause for
  \<open>CalledProcessError\<close> does not catch: nothing is printed and the exception leaves
  \<open>get_dependencies\<close>, for every package.
\<close>

theorem lookup_failure_outcomes:
  "(pip p = Completed returncode out \<and> returncode \<noteq> 0 \<longrightarrow>
      get_dependencies pip p = ([''Error: Could not fetch dependencies for '' @ p], Inr [])) \<and>
   (pip p = Not_started \<longrightarrow> get_dependencies pip p = ([], Inl FileNotFoundError))"
  by (simp add: get_dependencies_def subprocess_run_def)

theorem lookup_failure_outcomes_witness:
  "get_dependencies (pip_of []) ''requests'' =
     ([''Error: Could not fetch dependencies for requests''], Inr []) \<and>
   get_dependencies (\<lambda>p. Not_started) ''requests'' = ([], Inl FileNotFoundError)"
proof -
  have 1: "pip_of [] ''requests'' = Completed 1 [] \<and> (1::int) \<noteq> 0" by (simp add: pip_of_def)
  have 2: "(\<lambda>p. Not_started) ''requests'' = Not_started" by simp
  from lookup_failure_outcomes [of "pip_of []" "''requests''" 1 "[]"] 1
  have a: "get_dependencies (pip_of []) ''requests'' =
     ([''Error: Could not fetch dependencies for '' @ ''requests''], Inr [])" by blast
  from lookup_failure_outcomes [of "\<lambda>p. Not_started" "''requests''" 0 "[]"] 2
  have b: "get_dependencies (\<lambda>p. Not_started) ''requests'' = ([], Inl FileNotFoundError)" by blast
  from a b show ?thesis by simp
qed

section \<open>Depth 1 and below\<close>

text \<open>
  Claim C6. With depth 1, \<open>build_dependency_graph\<close> returns one edge for each dependency
  of the root, in their order, each with the root as its source, and the root is the only
  package looked up.
\<close>

theorem depth_one_root_edges:
  assumes "snd (get_dependencies pip root) = Inr deps"
  shows "build_dependency_graph pip root 1 = Inr (map (\<lambda>dep. root @ '' --> '' @ dep) deps) \<and>
    (\<exists>s. traverse pip root 1 = Inr s \<and> lookups (trace s) = [root])"
  using assms
  by (simp add: build_dependency_graph_def traverse_def initial_def
      add_dependencies_expand for_dep_beyond lookups_leaf)

theorem depth_one_root_edges_witness:
  "snd (get_dependencies (pip_of [(''X'', ''Requires: Y, Z''), (''Y'', ''Requires: W'')]) ''X'') =
     Inr [''Y'', ''Z''] \<and>
   build_dependency_graph (pip_of [(''X'', ''Requires: Y, Z''), (''Y'', ''Requires: W'')]) ''X'' 1 =
     Inr [''X --> Y'', ''X --> Z'']"
proof -
  let ?pip = "pip_of [(''X'', ''Requires: Y, Z''), (''Y'', ''Requires: W'')]"
  have 1: "snd (get_dependencies ?pip ''X'') = Inr [''Y'', ''Z'']" by code_simp
  show ?thesis using depth_one_root_edges [OF 1] 1 by simp
qed

text \<open>
  Claim C9. With a depth of 0 or less, the first call of \<open>add_dependencies\<close> returns at
  once: the graph returned is empty, and the record of events holds the entry of the root
  and no lookup.
\<close>

theorem nonpositive_depth_empty:
  "max_depth \<le> 0 \<Longrightarrow>
   traverse pip package_name max_depth = Inr (initial\<lparr>trace := [Enter package_name 1]\<rparr>) \<and>
   build_dependency_graph pip package_name max_depth = Inr []"
  by (simp add: build_dependency_graph_def traverse_def initial_def add_dependencies_skip)

theorem nonpositive_depth_empty_witness:
  "(0::int) \<le> 0 \<and>
   build_dependency_graph (pip_of [(''X'', ''Requires: Y, Z'')]) ''X'' 0 = Inr [] \<and>
   traverse (pip_of [(''X'', ''Requires: Y, Z'')]) ''X'' 0 = Inr (initial\<lparr>trace := [Enter ''X'' 1]\<rparr>)"
  using nonpositive_depth_empty [of 0 "pip_of [(''X'', ''Requires: Y, Z'')]" "''X''"] by simp

section \<open>Parsing the output of the lookup\<close>

lemma split_from_skip:
  "c \<notin> set d \<Longrightarrow> split_from (c # cs) cur (d @ rest) = split_from (c # cs) (cur @ d) rest"
  by (induction d arbitrary: cur) simp_all

lemma split_from_no_sep: "c \<notin> set d \<Longrightarrow> split_from (c # cs) cur d = [cur @ d]"
  using split_from_skip [of c d cs cur "[]"] by simp






lemma lstrip_append: "nonspace x \<Longrightarrow> lstrip (x @ r) = lstrip x @ r"
  by (auto simp: lstrip_def nonspace_def)


lemma rstrip_Cons:
  "rstrip (x # xs) = (if rstrip xs = [] \<and> isspace x then [] else x # rstrip xs)"
  by (auto simp: rstrip_def dropWhile_append)

lemma lstrip_rstrip: "lstrip (rstrip s) = rstrip (lstrip s)"
proof (induction s)
  case Nil
  show ?case by (simp add: lstrip_def rstrip_def)
next
  case (Cons x xs)
  show ?case
  proof (cases "isspace x")
    case True
    then have "lstrip (rstrip (x # xs)) = lstrip (rstrip xs)"
      by (simp add: rstrip_Cons) (simp add: lstrip_def)
    also have "\<dots> = rstrip (lstrip xs)" by (rule Cons.IH)
    also have "\<dots> = rstrip (lstrip (x # xs))" using True by (simp add: lstrip_def)
    finally show ?thesis .
  next
    case False
    then show ?thesis by (simp add: rstrip_Cons) (simp add: lstrip_def rstrip_Cons)
  qed
qed

lemma lstrip_idem: "lstrip (lstrip s) = lstrip s"
  by (simp add: lstrip_def)

lemma rstrip_idem: "rstrip (rstrip s) = rstrip s"
  by (simp add: rstrip_def)

lemma strip_lstrip: "strip (lstrip s) = strip s"
  by (simp add: strip_def lstrip_idem)

lemma strip_rstrip: "strip (rstrip s) = strip s"
  by (simp add: strip_def lstrip_rstrip rstrip_idem)


lemma rstrip_Nil_iff: "rstrip s = [] \<longleftrightarrow> \<not> nonspace s"
  by (simp add: rstrip_def nonspace_def)


lemma nonspace_rstrip: "nonspace (rstrip s) \<longleftrightarrow> nonspace s"
  using rstrip_Nil_iff [of "rstrip s"] rstrip_Nil_iff [of s] by (simp add: rstrip_idem)











lemma map_strip_map_hd: "map strip (map_hd lstrip xs) = map strip xs"
  by (cases xs) (simp_all add: strip_lstrip)

lemma map_strip_map_last: "map strip (map_last rstrip xs) = map strip xs"
  by (induction rstrip xs rule: map_last.induct) (simp_all add: strip_rstrip)



lemma split_requires_line:
  "CHR '':'' \<notin> set v \<Longrightarrow> split '':'' (''Requires:'' @ v) = [''Requires'', v]"
  using split_from_skip [of "CHR '':''" "''Requires''" "[]" "[]" "'':'' @ v"]
    split_from_no_sep [of "CHR '':''" v "[]" "[]"]
  by (simp add: split_def)

lemma scan_requires_line:
  "CHR '':'' \<notin> set v \<Longrightarrow>
   scan_lines ((''Requires:'' @ v) # post) =
     (if strip v \<noteq> [] then Inr (split_requires (strip v)) else Inr [])"
proof -
  assume v: "CHR '':'' \<notin> set v"
  have p: "prefix ''Requires'' (''Requires:'' @ v)" by simp
  show ?thesis
    by (simp only: scan_lines.simps p if_True split_requires_line [OF v] item1_def
        list.case sum.case Let_def)
qed


lemma get_dependencies_completed:
  "pip p = Completed 0 out \<Longrightarrow> get_dependencies pip p = ([], scan_lines (splitlines out))"
  by (simp add: get_dependencies_def subprocess_run_def)















section \<open>The traversal as a list of events\<close>

declare walk.simps [simp del]

lemma lookups_append [simp]: "lookups (t1 @ t2) = lookups t1 @ lookups t2"
  by (induction t1 rule: lookups.induct) simp_all

lemma edges_append [simp]: "edges (t1 @ t2) = edges t1 @ edges t2"
  by (induction t1 rule: edges.induct) simp_all

lemma targets_append [simp]: "targets q (t1 @ t2) = targets q t1 @ targets q t2"
  by (induction q t1 rule: targets.induct) simp_all

lemma after_Nil [simp]: "after pip s [] = s"
  by (simp add: after_def)

lemma after_after: "after pip (after pip s t1) t2 = after pip s (t1 @ t2)"
  by (simp add: after_def Un_assoc)

lemma traversal_is_walk:
  assumes ret: "\<And>p. snd (get_dependencies pip p) = Inr (l p)"
  shows "add_dependencies pip md p d s = Inr (after pip s (walk l md p d (visited s)))"
    and "for_dep pip md p d deps s = Inr (after pip s (walk_deps l md p d deps (visited s)))"
  using ret
proof (induction pip md p d s and pip md p d deps s rule: add_dependencies_for_dep.induct)
  case (1 pip md p d s)
  show ?case
  proof (cases "md < d \<or> p \<in> visited s")
    case True
    then show ?thesis
      by (simp add: add_dependencies_skip walk.simps after_def)
  next
    case False
    define out where "out = fst (get_dependencies pip p)"
    have g: "get_dependencies pip p = (out, Inr (l p))"
      unfolding out_def using "1.prems" [of p] by (metis prod.collapse)
    let ?s1 = "s\<lparr>visited := insert p (visited s), printed := printed s @ out,
                 trace := trace s @ [Enter p d, Lookup p]\<rparr>"
    have s1: "?s1 = after pip s [Enter p d, Lookup p]"
      by (simp add: after_def g)
    have "add_dependencies pip md p d s = for_dep pip md p d (l p) ?s1"
      using False g by (simp add: add_dependencies.simps)
    also have "\<dots> = Inr (after pip ?s1 (walk_deps l md p d (l p) (visited ?s1)))"
      using "1.IH" [OF False g [symmetric] refl "1.prems"] .
    also have "\<dots> = Inr (after pip s (walk l md p d (visited s)))"
      using False by (simp add: s1 after_after walk.simps) (simp add: after_def)
    finally show ?thesis .
  qed
next
  case (2 pip md p d s)
  show ?case by simp
next
  case (3 pip md p d dep deps s)
  let ?s0 = "s\<lparr>graph := graph s @ [p @ '' --> '' @ dep], trace := trace s @ [Append p dep]\<rparr>"
  let ?w = "walk l md dep (d + 1) (visited s)"
  have s0: "?s0 = after pip s [Append p dep]"
    by (simp add: after_def)
  have a: "add_dependencies pip md dep (d + 1) ?s0 = Inr (after pip ?s0 ?w)"
    using "3.IH"(1) [OF "3.prems"] by simp
  have "for_dep pip md p d (dep # deps) s = for_dep pip md p d deps (after pip ?s0 ?w)"
    by (simp only: for_dep.simps a sum.case)
  also have "\<dots> = Inr (after pip (after pip ?s0 ?w)
      (walk_deps l md p d deps (visited (after pip ?s0 ?w))))"
    using "3.IH"(2) [OF a "3.prems"] .
  also have "\<dots> = Inr (after pip s (walk_deps l md p d (dep # deps) (visited s)))"
    by (simp add: s0 after_after) (simp add: after_def)
  finally show ?case .
qed

lemma walk_fresh:
  "distinct (lookups (walk l md p d V)) \<and> set (lookups (walk l md p d V)) \<inter> V = {}"
  "distinct (lookups (walk_deps l md p d deps V)) \<and> set (lookups (walk_deps l md p d deps V)) \<inter> V = {}"
proof (induction l md p d V and l md p d deps V rule: walk_walk_deps.induct)
  case (1 l md p d V)
  then show ?case by (auto simp: walk.simps)
next
  case (2 l md p d V)
  show ?case by simp
next
  case (3 l md p d dep deps V)
  then show ?case by auto
qed

lemma walk_no_lookup_start: "\<not> starts_lookup (walk l md p d V)"
  by (simp add: walk.simps starts_lookup_def)







lemma pairs_append [simp]: "pairs (t1 @ t2) = pairs t1 @ pairs t2"
  by (induction t1 rule: pairs.induct) simp_all

lemma edges_pairs: "edges t = map (\<lambda>(p, d). p @ '' --> '' @ d) (pairs t)"
  by (induction t rule: edges.induct) simp_all

lemma targets_pairs: "targets q t = map snd (filter (\<lambda>e. fst e = q) (pairs t))"
  by (induction q t rule: targets.induct) simp_all

lemma walk_targets:
  "targets q (walk l md p d V) = (if q \<in> set (lookups (walk l md p d V)) then l q else [])"
  "p \<in> V \<longrightarrow> targets q (walk_deps l md p d deps V) =
     (if q = p then deps else if q \<in> set (lookups (walk_deps l md p d deps V)) then l q else [])"
proof (induction l md p d V and l md p d deps V rule: walk_walk_deps.induct)
  case (1 l md p d V)
  show ?case
  proof (cases "md < d \<or> p \<in> V")
    case True
    then show ?thesis by (simp add: walk.simps)
  next
    case False
    with "1.IH" [OF False] walk_fresh(2) [of l md p d "l p" "insert p V"]
    show ?thesis by (auto simp: walk.simps)
  qed
next
  case (2 l md p d V)
  show ?case by simp
next
  case (3 l md p d dep deps V)
  let ?w = "walk l md dep (d + 1) V"
  let ?r = "walk_deps l md p d deps (V \<union> set (lookups ?w))"
  show ?case
  proof
  assume pV: "p \<in> V"
  have f1: "set (lookups ?w) \<inter> V = {}" using walk_fresh(1) by blast
  have f2: "set (lookups ?r) \<inter> (V \<union> set (lookups ?w)) = {}" using walk_fresh(2) by blast
  have r: "targets q ?r = (if q = p then deps else if q \<in> set (lookups ?r) then l q else [])"
    using "3.IH" pV by simp
  have w: "targets q ?w = (if q \<in> set (lookups ?w) then l q else [])"
    using "3.IH" by simp
  have pw: "p \<notin> set (lookups ?w)"
    using f1 pV by blast
  have wr: "q \<in> set (lookups ?w) \<Longrightarrow> q \<notin> set (lookups ?r)"
    using f2 by blast
  have t: "targets q (walk_deps l md p d (dep # deps) V) =
      (if p = q then [dep] else []) @ targets q ?w @ targets q ?r"
    by simp
  have k: "lookups (walk_deps l md p d (dep # deps) V) = lookups ?w @ lookups ?r"
    by simp
  show "targets q (walk_deps l md p d (dep # deps) V) =
     (if q = p then dep # deps
      else if q \<in> set (lookups (walk_deps l md p d (dep # deps) V)) then l q else [])"
  proof (cases "q = p")
    case True
    then show ?thesis unfolding t w r using pw by simp
  next
    case False
    then show ?thesis unfolding t w r k using wr by auto
  qed
  qed
qed

lemma traverse_is_walk:
  assumes "\<And>p. snd (get_dependencies pip p) = Inr (l p)"
  shows "traverse pip root md = Inr (after pip initial (walk l md root 1 {}))"
  using traversal_is_walk(1) [of pip l md root 1 initial, OF assms]
  by (simp add: traverse_def initial_def)

lemma trace_after_initial: "trace (after pip initial t) = t"
  by (simp add: after_def initial_def)

lemma graph_after_initial: "graph (after pip initial t) = edges t"
  by (simp add: after_def initial_def)

lemma walk_pairs:
  assumes "(P, D) \<in> set (pairs (walk l md p d V))"
  shows "P \<in> set (lookups (walk l md p d V)) \<and> D \<in> set (l P)"
proof -
  from assms have "D \<in> set (targets P (walk l md p d V))"
    by (force simp: targets_pairs)
  then show ?thesis
    by (simp add: walk_targets(1) split: if_splits)
qed

lemma pip_of_returns:
  "snd (get_dependencies
      (pip_of [(''X'', ''Requires: Y, W''), (''Y'', ''Requires: Z''),
               (''Z'', ''Requires: W''), (''W'', ''Requires: V'')]) p) =
   Inr (deps_of [(''X'', [''Y'', ''W'']), (''Y'', [''Z'']), (''Z'', [''W'']), (''W'', [''V''])] p)"
proof -
  let ?pip = "pip_of [(''X'', ''Requires: Y, W''), (''Y'', ''Requires: Z''),
               (''Z'', ''Requires: W''), (''W'', ''Requires: V'')]"
  have x: "snd (get_dependencies ?pip ''X'') = Inr [''Y'', ''W'']" by code_simp
  have y: "snd (get_dependencies ?pip ''Y'') = Inr [''Z'']" by code_simp
  have z: "snd (get_dependencies ?pip ''Z'') = Inr [''W'']" by code_simp
  have w: "snd (get_dependencies ?pip ''W'') = Inr [''V'']" by code_simp
  have o: "p \<notin> {''X'', ''Y'', ''Z'', ''W''} \<Longrightarrow> snd (get_dependencies ?pip p) = Inr []"
    by (simp add: get_dependencies_def pip_of_def subprocess_run_def)
  consider "p = ''X''" | "p = ''Y''" | "p = ''Z''" | "p = ''W''" | "p \<notin> {''X'', ''Y'', ''Z'', ''W''}"
    by blast
  then show ?thesis
  proof cases
    case 1 then show ?thesis using x by (simp add: deps_of_def)
  next
    case 2 then show ?thesis using y by (simp add: deps_of_def)
  next
    case 3 then show ?thesis using z by (simp add: deps_of_def)
  next
    case 4 then show ?thesis using w by (simp add: deps_of_def)
  next
    case 5 then show ?thesis using o by (simp add: deps_of_def)
  qed
qed


section \<open>Termination and the edges of the graph\<close>

text \<open>When every lookup returns, the traversal without a recursion limit returns, and the
  edges of its graph are pairs of the lookups.\<close>

lemma unbounded_traversal_returns:
  assumes "\<And>p. snd (get_dependencies pip p) = Inr (lookup p)"
  shows "\<exists>s. traverse pip root max_depth = Inr s \<and>
     build_dependency_graph pip root max_depth = Inr (graph s) \<and>
     graph s = map (\<lambda>(P, D). P @ '' --> '' @ D) (pairs (trace s)) \<and>
     (\<forall>(P, D) \<in> set (pairs (trace s)). P \<in> set (lookups (trace s)) \<and> D \<in> set (lookup P))"
proof -
  let ?s = "after pip initial (walk lookup max_depth root 1 {})"
  have t: "traverse pip root max_depth = Inr ?s"
    using assms by (rule traverse_is_walk)
  have b: "build_dependency_graph pip root max_depth = Inr (graph ?s)"
    by (simp add: build_dependency_graph_def t)
  have g: "graph ?s = map (\<lambda>(P, D). P @ '' --> '' @ D) (pairs (trace ?s))"
    by (simp only: graph_after_initial trace_after_initial edges_pairs)
  have r: "\<forall>(P, D) \<in> set (pairs (trace ?s)). P \<in> set (lookups (trace ?s)) \<and> D \<in> set (lookup P)"
    unfolding trace_after_initial using walk_pairs by blast
  from t b g r show ?thesis by blast
qed

text \<open>Within the recursion limit the interpreter's bound is never met.\<close>

declare add_dependencies_bounded.simps [simp del]

lemma bounded_within_room:
  "max_depth \<le> room \<Longrightarrow>
   add_dependencies_bounded room pip max_depth pkg_name current_depth s =
   add_dependencies pip max_depth pkg_name current_depth s"
  "max_depth \<le> room \<Longrightarrow>
   for_dep_bounded room pip max_depth pkg_name current_depth deps s =
   for_dep pip max_depth pkg_name current_depth deps s"
proof (induction pip max_depth pkg_name current_depth s and pip max_depth pkg_name current_depth deps s
    rule: add_dependencies_for_dep.induct)
  case (1 pip max_depth pkg_name current_depth s)
  show ?case
  proof (cases "max_depth < current_depth \<or> pkg_name \<in> visited s")
    case True
    then show ?thesis
      by (simp add: add_dependencies_bounded.simps add_dependencies.simps)
  next
    case False
    obtain out r where g: "get_dependencies pip pkg_name = (out, r)"
      by (cases "get_dependencies pip pkg_name")
    show ?thesis
    proof (cases r)
      case (Inl e)
      with False g "1.prems" show ?thesis
        by (simp add: add_dependencies_bounded.simps add_dependencies.simps)
    next
      case (Inr dependencies)
      from "1.IH" [OF False g [symmetric] Inr "1.prems"] False g Inr "1.prems"
      show ?thesis
        by (simp add: add_dependencies_bounded.simps add_dependencies.simps)
    qed
  qed
next
  case (2 pip max_depth pkg_name current_depth s)
  show ?case by simp
next
  case (3 pip max_depth pkg_name current_depth dep deps s)
  let ?s0 = "s\<lparr>graph := graph s @ [pkg_name @ '' --> '' @ dep], trace := trace s @ [Append pkg_name dep]\<rparr>"
  have a: "add_dependencies_bounded room pip max_depth dep (current_depth + 1) ?s0 =
           add_dependencies pip max_depth dep (current_depth + 1) ?s0"
    using "3.IH"(1) [OF "3.prems"] .
  show ?case
  proof (cases "add_dependencies pip max_depth dep (current_depth + 1) ?s0")
    case (Inl e)
    then show ?thesis by (simp only: for_dep_bounded.simps for_dep.simps a sum.case)
  next
    case (Inr s')
    from "3.IH"(2) [OF Inr "3.prems"] Inr
    show ?thesis by (simp only: for_dep_bounded.simps for_dep.simps a sum.case)
  qed
qed

lemma splitlines_from_one_line:
  "\<forall>c\<in>set s. \<not> is_linebreak c \<Longrightarrow> cur @ s \<noteq> [] \<Longrightarrow> splitlines_from cur s = [cur @ s]"
  by (induction cur s rule: splitlines_from.induct) (auto simp: is_linebreak_def)

lemma strip_letters: "strip (replicate n CHR ''a'') = replicate n CHR ''a''"
  by (simp add: strip_def lstrip_def rstrip_def isspace_def)

lemma strip_space_letters:
  "strip (CHR '' '' # replicate (Suc n) CHR ''a'') = replicate (Suc n) CHR ''a''"
proof -
  have "lstrip (CHR '' '' # replicate (Suc n) CHR ''a'') = replicate (Suc n) CHR ''a''"
    by (simp add: lstrip_def isspace_def)
  then show ?thesis
    using strip_letters [of "Suc n"] by (simp add: strip_def lstrip_def isspace_def)
qed

lemma split_requires_letters:
  "split_requires (replicate (Suc n) CHR ''a'') = [replicate (Suc n) CHR ''a'']"
proof -
  have "CHR '','' \<notin> set (replicate (Suc n) CHR ''a'')" by simp
  from split_from_no_sep [OF this, of "'' ''" "[]"]
  have "split '', '' (replicate (Suc n) CHR ''a'') = [replicate (Suc n) CHR ''a'']"
    by (simp add: split_def del: split_from.simps replicate.simps)
  then show ?thesis
    using strip_letters [of "Suc n"]
    by (simp add: split_requires_def del: replicate.simps)
qed

lemma chain_next:
  "get_dependencies chain (replicate n CHR ''a'') = ([], Inr [replicate (Suc n) CHR ''a''])"
proof -
  let ?v = "CHR '' '' # replicate (Suc n) CHR ''a''"
  have o: "''Requires: '' @ replicate n CHR ''a'' @ ''a'' = ''Requires:'' @ ?v"
    by (simp add: replicate_append_same)
  have "\<forall>c\<in>set (''Requires:'' @ ?v). \<not> is_linebreak c"
    by (auto simp: is_linebreak_def)
  then have l: "splitlines (''Requires:'' @ ?v) = [''Requires:'' @ ?v]"
    unfolding splitlines_def using splitlines_from_one_line [of "''Requires:'' @ ?v" "[]"] by simp
  have c: "CHR '':'' \<notin> set ?v" by simp
  have "scan_lines [''Requires:'' @ ?v] = Inr [replicate (Suc n) CHR ''a'']"
    by (simp only: scan_requires_line [OF c] strip_space_letters split_requires_letters) simp
  then show ?thesis
    by (simp only: get_dependencies_completed [of chain "replicate n CHR ''a''", OF chain_def] o l)
qed

lemma chain_overflows:
  "nat (room + 1 - d) = k \<Longrightarrow> d \<le> room + 1 \<Longrightarrow> room < max_depth \<Longrightarrow>
   \<forall>m\<ge>n. replicate m CHR ''a'' \<notin> visited s \<Longrightarrow>
   add_dependencies_bounded room chain max_depth (replicate n CHR ''a'') d s = Inl RecursionError"
proof (induction k arbitrary: d n s)
  case 0
  then have d: "d = room + 1" by simp
  have "replicate n CHR ''a'' \<notin> visited s" using "0.prems"(4) by simp
  then show ?case
    using "0.prems"(3) d by (simp add: add_dependencies_bounded.simps)
next
  case (Suc k)
  let ?p = "replicate n CHR ''a''"
  let ?q = "replicate (Suc n) CHR ''a''"
  let ?s1 = "s\<lparr>visited := insert ?p (visited s), printed := printed s @ [],
               trace := trace s @ [Enter ?p d, Lookup ?p]\<rparr>"
  let ?s0 = "?s1\<lparr>graph := graph ?s1 @ [?p @ '' --> '' @ ?q], trace := trace ?s1 @ [Append ?p ?q]\<rparr>"
  from Suc.prems have d: "d \<le> room" "d \<le> max_depth" by simp_all
  have nv: "?p \<notin> visited s" using Suc.prems(4) by simp
  have fresh: "\<forall>m\<ge>Suc n. replicate m CHR ''a'' \<notin> visited ?s0"
  proof (intro allI impI)
    fix m assume m: "Suc n \<le> m"
    then have "replicate m CHR ''a'' \<noteq> ?p"
      by (simp del: replicate.simps)
    moreover have "replicate m CHR ''a'' \<notin> visited s" using Suc.prems(4) m by simp
    ultimately show "replicate m CHR ''a'' \<notin> visited ?s0" by simp
  qed
  have k: "nat (room + 1 - (d + 1)) = k" using Suc.prems(1) by simp
  have r: "add_dependencies_bounded room chain max_depth ?q (d + 1) ?s0 = Inl RecursionError"
    using Suc.IH [OF k _ Suc.prems(3) fresh] d by simp
  have "add_dependencies_bounded room chain max_depth ?p d s =
        for_dep_bounded room chain max_depth ?p d [?q] ?s1"
    using d nv by (simp add: add_dependencies_bounded.simps [of room chain max_depth ?p d s] chain_next
        del: replicate.simps)
  also have "\<dots> = Inl RecursionError"
    by (simp only: for_dep_bounded.simps r sum.case)
  finally show ?case .
qed

text \<open>
  Claim C7, as amended. For a package manager whose every lookup returns, \<open>lookup p\<close>
  being the dependencies returned for \<open>p\<close>, cyclic or not, and for every depth that the
  recursion limit of the interpreter leaves room for, the traversal of
  \<open>build_dependency_graph\<close> returns without raising; the graph returned holds one string
  \<open>P --> D\<close> for each edge appended, and for each of these edges \<open>P\<close> has been looked up
  and \<open>D\<close> is one of the dependencies that the lookup of \<open>P\<close> returns.
\<close>

theorem bounded_traversal_returns_lookup_edges:
  assumes "\<And>p. snd (get_dependencies pip p) = Inr (lookup p)"
    and "max_depth \<le> room"
  shows "\<exists>s. traverse_bounded room pip root max_depth = Inr s \<and>
     build_dependency_graph_bounded room pip root max_depth = Inr (graph s) \<and>
     graph s = map (\<lambda>(P, D). P @ '' --> '' @ D) (pairs (trace s)) \<and>
     (\<forall>(P, D) \<in> set (pairs (trace s)). P \<in> set (lookups (trace s)) \<and> D \<in> set (lookup P))"
proof -
  have t: "traverse_bounded room pip root max_depth = traverse pip root max_depth"
    using assms(2) by (simp add: traverse_bounded_def traverse_def bounded_within_room(1))
  have b: "build_dependency_graph_bounded room pip root max_depth =
           build_dependency_graph pip root max_depth"
    by (simp add: build_dependency_graph_bounded_def build_dependency_graph_def t)
  from unbounded_traversal_returns [of pip lookup root max_depth, OF assms(1)]
  show ?thesis unfolding t b .
qed

theorem bounded_traversal_returns_lookup_edges_witness:
  "\<exists>s. traverse_bounded 1000 (pip_of [(''X'', ''Requires: Y, W''), (''Y'', ''Requires: Z''),
               (''Z'', ''Requires: W''), (''W'', ''Requires: V'')]) ''X'' 3 = Inr s \<and>
     graph s = map (\<lambda>(P, D). P @ '' --> '' @ D) (pairs (trace s))"
proof -
  have 1: "(3::int) \<le> 1000" by simp
  from bounded_traversal_returns_lookup_edges [of "pip_of [(''X'', ''Requires: Y, W''), (''Y'', ''Requires: Z''),
               (''Z'', ''Requires: W''), (''W'', ''Requires: V'')]"
      "deps_of [(''X'', [''Y'', ''W'']), (''Y'', [''Z'']), (''Z'', [''W'']), (''W'', [''V''])]"
      3 1000 "''X''", OF pip_of_returns 1]
  show ?thesis by blast
qed

text \<open>
  The traversal raises when a lookup that it reaches raises: with a \<open>pip\<close> that cannot be
  started, the lookup of the root raises \<open>FileNotFoundError\<close>, with or without the recursion
  limit. It raises also when the chain of dependencies is longer than the recursion limit
  and the depth allows to follow it: with room for 1000 nested calls, the endless chain
  from \<open>a\<close> and depth 2000 end in \<open>RecursionError\<close>.
\<close>

theorem traversal_raises:
  "build_dependency_graph (\<lambda>p. Not_started) ''X'' 1 = Inl FileNotFoundError \<and>
   build_dependency_graph_bounded 1000 (\<lambda>p. Not_started) ''X'' 1 = Inl FileNotFoundError \<and>
   build_dependency_graph_bounded 1000 chain ''a'' 2000 = Inl RecursionError"
proof -
  have g: "snd (get_dependencies (\<lambda>p. Not_started) ''X'') = Inl FileNotFoundError"
    by (simp add: get_dependencies_def subprocess_run_def)
  have 1: "build_dependency_graph (\<lambda>p. Not_started) ''X'' 1 = Inl FileNotFoundError"
    using g by (simp add: build_dependency_graph_def traverse_def initial_def add_dependencies_raise)
  have 2: "build_dependency_graph_bounded 1000 (\<lambda>p. Not_started) ''X'' 1 = Inl FileNotFoundError"
    using 1 by (simp add: build_dependency_graph_bounded_def build_dependency_graph_def
        traverse_bounded_def traverse_def bounded_within_room(1))
  have "add_dependencies_bounded 1000 chain 2000 (replicate 1 CHR ''a'') 1 initial = Inl RecursionError"
    by (rule chain_overflows [of 1000 1 1000 2000 1 initial]) (simp_all add: initial_def)
  then have 3: "build_dependency_graph_bounded 1000 chain ''a'' 2000 = Inl RecursionError"
    by (simp add: build_dependency_graph_bounded_def traverse_bounded_def)
  from 1 2 3 show ?thesis by simp
qed

section \<open>Expansion at most once\<close>





section \<open>The script\<close>

lemma render_foldl:
  "foldl (\<lambda>plantuml_script relation. plantuml_script @ relation @ ''\<newline>'') acc g =
   acc @ concat (map (\<lambda>relation. relation @ ''\<newline>'') g)"
  by (induction g arbitrary: acc) simp_all

text \<open>
  Claim C8. The script is the line \<open>@startuml\<close>, then each relation of the graph on a line
  of its own, in the order of the graph, then \<open>@enduml\<close>; it is a function of the graph
  alone. For the edges from \<open>A\<close> to \<open>B\<close> and from \<open>A\<close> to \<open>C\<close>, as \<open>add_dependencies\<close> formats
  them, the lines between the two markers are \<open>A --> B\<close> and \<open>A --> C\<close>.
\<close>

theorem script_lines_in_order:
  "generate_plantuml_script g =
     ''@startuml\<newline>'' @ concat (map (\<lambda>relation. relation @ ''\<newline>'') g) @ ''@enduml'' \<and>
   generate_plantuml_script [A @ '' --> '' @ B, A @ '' --> '' @ C] =
     ''@startuml\<newline>'' @ A @ '' --> '' @ B @ ''\<newline>'' @ A @ '' --> '' @ C @ ''\<newline>@enduml''"
  by (simp add: generate_plantuml_script_def render_foldl)

text \<open>
  Claim C10. For the empty graph the script is \<open>@startuml\<close>, a newline and \<open>@enduml\<close>, with
  no newline after it.
\<close>

theorem script_of_empty_graph: "generate_plantuml_script [] = ''@startuml\<newline>@enduml''"
  by (simp add: generate_plantuml_script_def)

end
